theory Spec2Isabelle
  imports Complex_Main
begin

section \<open>Numbers of the program\<close>

text \<open>
  The estimator of \<^verbatim>\<open>e_calculator.py\<close> computes with numpy doubles. A finite double is
  the real number it denotes; the special values that numpy produces instead of raising
  (infinities and not-a-number) are separate constructors. Every arithmetic operation
  rounds its exact result to a double (\<open>fl\<close> below), so that products underflow to zero
  and overflow to infinity as they do in the program.
\<close>

datatype npfloat = Fin real | PInf | NInf | NaN

definition signed_inf :: "real \<Rightarrow> npfloat" where
  "signed_inf x = (if 0 < x then PInf else if x < 0 then NInf else NaN)"

text \<open>
  Rounding to binary64, to nearest with ties to even: a significand of 53 bits, the
  exponent of the leading bit at least \<open>-1022\<close> (below that the spacing stays
  \<open>2 powr (-1074)\<close>, the subnormal numbers), and infinity once the rounded magnitude
  reaches \<open>2 powr 1024\<close>. Addition, multiplication, division and square root are
  rounded so by the hardware; \<^verbatim>\<open>np.log\<close> and \<^verbatim>\<open>**\<close> are taken to be rounded so too.
\<close>

definition round_even :: "real \<Rightarrow> int" where
  "round_even q =
     (let f = \<lfloor>q\<rfloor>; d = q - of_int f
      in if d < 1 / 2 then f else if 1 / 2 < d then f + 1 else if even f then f else f + 1)"

definition emax :: int where
  "emax = 1024"

definition fl :: "real \<Rightarrow> npfloat" where
  "fl x =
     (if x = 0 then Fin 0
      else
        let m = \<bar>x\<bar>;
            e = max \<lfloor>log 2 m\<rfloor> (- 1022);
            u = 2 powr of_int (e - 52);
            r = of_int (round_even (m / u)) * u
        in if 2 powr of_int emax \<le> r then signed_inf x else Fin (sgn x * r))"

text \<open>\<^verbatim>\<open>np.log\<close>: minus infinity at zero, not-a-number below it (a warning, no exception).\<close>

definition np_log :: "real \<Rightarrow> npfloat" where
  "np_log a = (if 0 < a then fl (ln a) else if a = 0 then NInf else NaN)"

fun np_sqrt :: "npfloat \<Rightarrow> npfloat" where
  "np_sqrt (Fin x) = (if 0 \<le> x then fl (sqrt x) else NaN)"
| "np_sqrt PInf = PInf"
| "np_sqrt NInf = NaN"
| "np_sqrt NaN = NaN"

fun np_mul :: "npfloat \<Rightarrow> npfloat \<Rightarrow> npfloat" where
  "np_mul (Fin x) (Fin y) = fl (x * y)"
| "np_mul (Fin x) PInf = signed_inf x"
| "np_mul (Fin x) NInf = signed_inf (- x)"
| "np_mul PInf (Fin y) = signed_inf y"
| "np_mul NInf (Fin y) = signed_inf (- y)"
| "np_mul PInf PInf = PInf"
| "np_mul PInf NInf = NInf"
| "np_mul NInf PInf = NInf"
| "np_mul NInf NInf = PInf"
| "np_mul NaN _ = NaN"
| "np_mul _ NaN = NaN"

text \<open>
  Division of numpy scalars: a zero divisor gives an infinity of the sign of the
  dividend, or not-a-number for \<^verbatim>\<open>0/0\<close>; nothing is raised.
\<close>

fun np_div :: "npfloat \<Rightarrow> npfloat \<Rightarrow> npfloat" where
  "np_div (Fin x) (Fin y) = (if y \<noteq> 0 then fl (x / y) else signed_inf x)"
| "np_div (Fin x) PInf = Fin 0"
| "np_div (Fin x) NInf = Fin 0"
| "np_div PInf (Fin y) = (if 0 \<le> y then PInf else NInf)"
| "np_div NInf (Fin y) = (if 0 \<le> y then NInf else PInf)"
| "np_div PInf PInf = NaN"
| "np_div PInf NInf = NaN"
| "np_div NInf PInf = NaN"
| "np_div NInf NInf = NaN"
| "np_div NaN _ = NaN"
| "np_div _ NaN = NaN"

text \<open>\<^verbatim>\<open>a ** e\<close> for a finite base and a finite exponent.\<close>

definition np_power :: "real \<Rightarrow> real \<Rightarrow> npfloat" where
  "np_power a e =
     (if 0 < a then fl (a powr e)
      else if a = 0 then (if e = 0 then Fin 1 else if e < 0 then PInf else Fin 0)
      else if e \<in> \<int> then fl ((if even \<lfloor>e\<rfloor> then 1 else - 1) * (\<bar>a\<bar> powr e))
      else NaN)"

text \<open>Comparisons: every comparison with not-a-number is false.\<close>

fun np_lt :: "npfloat \<Rightarrow> npfloat \<Rightarrow> bool" where
  "np_lt NaN _ = False"
| "np_lt _ NaN = False"
| "np_lt (Fin x) (Fin y) = (x < y)"
| "np_lt (Fin x) PInf = True"
| "np_lt (Fin x) NInf = False"
| "np_lt PInf _ = False"
| "np_lt NInf (Fin y) = True"
| "np_lt NInf PInf = True"
| "np_lt NInf NInf = False"

fun np_le :: "npfloat \<Rightarrow> npfloat \<Rightarrow> bool" where
  "np_le NaN _ = False"
| "np_le _ NaN = False"
| "np_le (Fin x) (Fin y) = (x \<le> y)"
| "np_le (Fin x) PInf = True"
| "np_le (Fin x) NInf = False"
| "np_le PInf PInf = True"
| "np_le PInf _ = False"
| "np_le NInf _ = True"

text \<open>\<^verbatim>\<open>np.product\<close> of an array: the product of its entries, 1 for the empty array.\<close>

definition np_product :: "npfloat list \<Rightarrow> npfloat" where
  "np_product xs = foldl np_mul (Fin 1) xs"

text \<open>
  Python's \<^verbatim>\<open>min(1, x)\<close> keeps its first argument unless the second is smaller,
  so it is 1 when \<^verbatim>\<open>x\<close> is not-a-number.
\<close>

definition py_min1 :: "npfloat \<Rightarrow> npfloat" where
  "py_min1 x = (if np_lt x (Fin 1) then x else Fin 1)"

text \<open>A Python number passed as a trial count: an \<^verbatim>\<open>int\<close> or a \<^verbatim>\<open>float\<close>.\<close>

datatype pynum = PyInt int | PyFloat real

fun py_real :: "pynum \<Rightarrow> real" where
  "py_real (PyInt n) = real_of_int n"
| "py_real (PyFloat x) = x"

fun isinstance_int :: "pynum \<Rightarrow> bool" where
  "isinstance_int (PyInt _) = True"
| "isinstance_int (PyFloat _) = False"

definition py_truthy :: "pynum \<Rightarrow> bool" where
  "py_truthy n = (py_real n \<noteq> 0)"

datatype pyerr = AssertionError | AttributeError | TypeError | ValueError

section \<open>The random source\<close>

text \<open>
  \<^verbatim>\<open>np.random\<close> is the process-wide generator. Its state is the sequence of the unit
  draws still to come; \<^verbatim>\<open>np.random.uniform(low, high)\<close> takes the next one, \<open>r\<close>, and
  returns \<open>low + (high - low) * r\<close>, a value of the half-open interval that numpy
  documents. A generator is well-formed when each draw lies in the half-open unit
  interval.
\<close>

type_synonym rng = "nat \<Rightarrow> real"

definition uniform :: "real \<Rightarrow> real \<Rightarrow> rng \<Rightarrow> real \<times> rng" where
  "uniform low high g = (low + (high - low) * g 0, \<lambda>n. g (Suc n))"

definition unit_draws :: "rng \<Rightarrow> bool" where
  "unit_draws g = (\<forall>n. 0 \<le> g n \<and> g n < 1)"

section \<open>The estimator\<close>

text \<open>
  The attributes of \<^verbatim>\<open>CalculateE\<close>. \<^verbatim>\<open>chain\<close> is \<open>chain_attr\<close> here; \<open>ntrails\<close> is the
  attribute that \<^verbatim>\<open>uniformly_sample_space\<close> and \<^verbatim>\<open>run_mcmc\<close> create on their first
  call (the constructor sets \<open>ntrials\<close>). The observations are the constructor's draws
  from the standard normal distribution, taken here as given.
\<close>

record estimator =
  nsamples :: int
  ntrials :: int
  data :: "real list"
  a_array :: "real list option"
  posterior :: "npfloat list option"
  chain_attr :: "real list option"
  ntrails :: "pynum option"

definition CalculateE :: "int \<Rightarrow> real list \<Rightarrow> estimator" where
  "CalculateE n xs =
     \<lparr>nsamples = n, ntrials = 1000, data = xs, a_array = None, posterior = None,
      chain_attr = None, ntrails = None\<rparr>"

definition calculate_posterior :: "estimator \<Rightarrow> real \<Rightarrow> npfloat" where
  "calculate_posterior self a =
     (let Na = np_sqrt (np_div (np_log a) (fl (2 * pi)))
      in np_product (map (\<lambda>x. np_mul Na (np_power a (- (x\<^sup>2) / 2))) (data self)))"

text \<open>\<^verbatim>\<open>_check_inputs\<close>: three assertions, in the source's order.\<close>

definition check_inputs :: "real \<Rightarrow> real \<Rightarrow> pynum \<Rightarrow> pyerr option" where
  "check_inputs a_min a_max nt =
     (if \<not> 1 < a_min then Some AssertionError
      else if \<not> a_min < a_max then Some AssertionError
      else if \<not> (0 < py_real nt \<and> isinstance_int nt) then Some AssertionError
      else None)"

text \<open>
  \<^verbatim>\<open>uniformly_sample_space\<close>. The grid is what \<^verbatim>\<open>np.linspace(a_min, a_max, ntrials)\<close>
  returns: numpy's routine is not part of this program, so it is the argument
  \<open>np_linspace\<close>, giving the grid or the exception it raises.
\<close>

definition uniformly_sample_space ::
  "(real \<Rightarrow> real \<Rightarrow> pynum \<Rightarrow> pyerr + real list) \<Rightarrow>
   estimator \<Rightarrow> real \<Rightarrow> real \<Rightarrow> pynum \<Rightarrow> pyerr option \<times> estimator" where
  "uniformly_sample_space np_linspace self a_min a_max nt =
     (case check_inputs a_min a_max nt of
        Some e \<Rightarrow> (Some e, self)
      | None \<Rightarrow>
          (case (if py_truthy nt then Inr (nt, self\<lparr>ntrails := Some nt\<rparr>)
                 else (case ntrails self of
                         None \<Rightarrow> Inl AttributeError
                       | Some k \<Rightarrow> Inr (k, self))) of
             Inl e \<Rightarrow> (Some e, self)
           | Inr (k, self1) \<Rightarrow>
               (case np_linspace a_min a_max k of
                  Inl e \<Rightarrow> (Some e, self1)
                | Inr arr \<Rightarrow>
                    let self2 = self1\<lparr>a_array := Some arr\<rparr>
                    in (None,
                        self2\<lparr>posterior := Some (map (calculate_posterior self2) arr)\<rparr>))))"

definition restart_chain :: "estimator \<Rightarrow> estimator" where
  "restart_chain self = self\<lparr>chain_attr := None\<rparr>"

text \<open>
  One pass through the body of the \<^verbatim>\<open>while\<close> loop of \<^verbatim>\<open>metropolis_hastings\<close>: the
  proposal, its posterior, the acceptance probability, the uniform draw and the
  accept-or-keep decision. It returns the new current value and its posterior, and the
  generator after the two draws.
\<close>

definition mh_trial :: "estimator \<Rightarrow> rng \<Rightarrow> real \<Rightarrow> npfloat \<Rightarrow> real \<times> npfloat \<times> rng" where
  "mh_trial self g a_current prob_a_current =
     (let (a_trial, g1) = uniform 1 10 g;
          prob_a_trial = calculate_posterior self a_trial;
          acceptance_prob = py_min1 (np_div prob_a_trial prob_a_current);
          (u, g2) = uniform 0 1 g1
      in if np_le (Fin u) acceptance_prob then (a_trial, prob_a_trial, g2)
         else (a_current, prob_a_current, g2))"

text \<open>
  The \<^verbatim>\<open>while trial_num <= ntrials\<close> loop. The bound is the real value of the trial
  count; each pass appends the current value to the chain. The source appends in place
  to the list it was given; nothing in the loop raises, so the list is seen again only
  when \<^verbatim>\<open>run_mcmc\<close> stores the returned chain.
\<close>

function mh_loop ::
  "estimator \<Rightarrow> real \<Rightarrow> rng \<Rightarrow> int \<Rightarrow> real \<Rightarrow> npfloat \<Rightarrow> real list \<Rightarrow> real list \<times> rng" where
  "mh_loop self nt g trial_num a_current prob_a_current chain =
     (if real_of_int trial_num \<le> nt then
        (case mh_trial self g a_current prob_a_current of
           (a_current', prob_a_current', g') \<Rightarrow>
             mh_loop self nt g' (trial_num + 1) a_current' prob_a_current'
               (chain @ [a_current']))
      else (chain, g))"
  by pat_completeness auto
termination
  by (relation "measure (\<lambda>(self, nt, g, trial_num, a, p, chain). nat (\<lfloor>nt\<rfloor> + 1 - trial_num))")
     (auto simp: le_floor_iff)

declare mh_loop.simps [simp del]

text \<open>
  \<^verbatim>\<open>metropolis_hastings\<close>: the seed is drawn first, on every call, and is the loop's
  first current value; \<^verbatim>\<open>self.chain or [a_current]\<close> is the stored chain unless it is
  \<^verbatim>\<open>None\<close> or empty. (The seed entry of a new chain is a one-element array in the
  source; the entry here is its element.)
\<close>

definition metropolis_hastings ::
  "estimator \<Rightarrow> rng \<Rightarrow> pynum \<Rightarrow> real \<Rightarrow> real \<Rightarrow> real list \<times> rng" where
  "metropolis_hastings self g nt a_min a_max =
     (let (a0, g1) = uniform a_min a_max g;
          prob_a0 = calculate_posterior self a0;
          trial_num = 1;
          a_current = a0;
          chain = (case chain_attr self of
                     None \<Rightarrow> [a_current]
                   | Some c \<Rightarrow> if c = [] then [a_current] else c);
          prob_a_current = prob_a0
      in mh_loop self (py_real nt) g1 trial_num a_current prob_a_current chain)"

text \<open>
  \<^verbatim>\<open>run_mcmc\<close> returns the exception raised, if any, the estimator and the generator as
  they are when it returns. A trial count that passed the check is truthy; the
  \<^verbatim>\<open>else\<close> branch reads \<open>ntrails\<close>, which does not exist before the first successful
  call.
\<close>

definition run_mcmc ::
  "estimator \<Rightarrow> rng \<Rightarrow> real \<Rightarrow> real \<Rightarrow> pynum \<Rightarrow> pyerr option \<times> estimator \<times> rng" where
  "run_mcmc self g a_min a_max nt =
     (case check_inputs a_min a_max nt of
        Some e \<Rightarrow> (Some e, self, g)
      | None \<Rightarrow>
          (case (if py_truthy nt then Inr (nt, self\<lparr>ntrails := Some nt\<rparr>)
                 else (case ntrails self of
                         None \<Rightarrow> Inl AttributeError
                       | Some k \<Rightarrow> Inr (k, self))) of
             Inl e \<Rightarrow> (Some e, self, g)
           | Inr (k, self1) \<Rightarrow>
               (case metropolis_hastings self1 g k a_min a_max of
                  (c, g') \<Rightarrow> (None, self1\<lparr>chain_attr := Some c\<rparr>, g'))))"

section \<open>Concrete runs and chain predicates\<close>

text \<open>
  A generator whose draws repeat with period three: one half, zero, one half. With it a
  call of \<^verbatim>\<open>run_mcmc\<close> for one trial draws its seed in the middle of
  \<open>[a_min, a_max]\<close>, proposes \<open>a_trial = 1\<close> (posterior zero for non-empty observations)
  and rejects the proposal with \<open>u = 1/2\<close>.
\<close>

definition reject_draws :: rng where
  "reject_draws = (\<lambda>n. if n mod 3 = 1 then 0 else 1 / 2)"

text \<open>
  The estimator with the single observation 0 after
  \<^verbatim>\<open>run_mcmc(2, 4, 1)\<close> under \<open>reject_draws\<close>: its chain is \<open>[3, 3]\<close>.
\<close>

definition after_first_run :: estimator where
  "after_first_run = (CalculateE 1 [0])\<lparr>chain_attr := Some [3, 3], ntrails := Some (PyInt 1)\<rparr>"

text \<open>
  The transitions of a chain: each entry after the first repeats the entry before it or
  lies in \<open>[1, 10]\<close>.
\<close>

text \<open>A value that is not negative: a finite number \<open>\<ge> 0\<close>, plus infinity, or not-a-number.\<close>

fun nonneg_val :: "npfloat \<Rightarrow> bool" where
  "nonneg_val (Fin x) = (0 \<le> x)"
| "nonneg_val PInf = True"
| "nonneg_val NInf = False"
| "nonneg_val NaN = True"

fun np_neg :: "npfloat \<Rightarrow> npfloat" where
  "np_neg (Fin x) = Fin (- x)"
| "np_neg PInf = NInf"
| "np_neg NInf = PInf"
| "np_neg NaN = NaN"

fun chain_transitions_ok :: "real list \<Rightarrow> bool" where
  "chain_transitions_ok (x # y # ys) =
     ((y = x \<or> (1 \<le> y \<and> y \<le> 10)) \<and> chain_transitions_ok (y # ys))"
| "chain_transitions_ok _ = True"

text \<open>A large double, two to the power 1000, at which a factor of the product underflows.\<close>

definition a_big :: real where
  "a_big = 2 powr 1000"

section \<open>Rounding\<close>

lemma pow2_pos_le: "2 powr y \<le> (x::real) \<Longrightarrow> 0 < x"
proof -
  assume a: "2 powr y \<le> x"
  have "(0::real) < 2 powr y" by simp
  then show ?thesis using a by (rule less_le_trans)
qed

lemma round_even_ge: "of_int k \<le> q \<Longrightarrow> k \<le> round_even q"
proof -
  assume "of_int k \<le> q"
  then have "k \<le> \<lfloor>q\<rfloor>" by (simp add: le_floor_iff)
  then show ?thesis by (auto simp: round_even_def Let_def)
qed

lemma round_even_le: "q \<le> of_int k \<Longrightarrow> round_even q \<le> k"
proof -
  assume a: "q \<le> of_int k"
  show ?thesis
  proof (cases "q = of_int k")
    case True then show ?thesis by (simp add: round_even_def)
  next
    case False
    then have "q < of_int k" using a by simp
    then have "\<lfloor>q\<rfloor> < k" by (simp add: floor_less_iff)
    then show ?thesis by (auto simp: round_even_def Let_def)
  qed
qed

lemma round_even_small: "0 \<le> q \<Longrightarrow> q < 1 / 2 \<Longrightarrow> round_even q = 0"
proof -
  assume a: "0 \<le> q" "q < 1 / 2"
  then have "\<lfloor>q\<rfloor> = 0" by (simp add: floor_eq_iff)
  then show ?thesis using a by (simp add: round_even_def)
qed

lemma fl_zero [simp]: "fl 0 = Fin 0"
  by (simp add: fl_def)

lemma fl_pos_unfold:
  assumes "0 < x"
  shows "fl x =
     (let e = max \<lfloor>log 2 x\<rfloor> (- 1022);
          u = 2 powr of_int (e - 52);
          r = of_int (round_even (x / u)) * u
      in if 2 powr of_int emax \<le> r then PInf else Fin r)"
  using assms by (simp add: fl_def Let_def signed_inf_def)

lemma fl_upper:
  assumes "0 < x" "x \<le> 2 powr of_int j" "- 1022 \<le> j" "j \<le> 1023"
  shows "\<exists>r. fl x = Fin r \<and> 0 \<le> r \<and> r \<le> 2 powr of_int j"
proof -
  define e where "e = max \<lfloor>log 2 x\<rfloor> (- 1022)"
  define u :: real where "u = 2 powr of_int (e - 52)"
  define r :: real where "r = of_int (round_even (x / u)) * u"
  have upos: "0 < u" by (simp add: u_def)
  have "log 2 x \<le> of_int j"
    using assms(1,2) by (simp add: log_le_iff)
  then have "\<lfloor>log 2 x\<rfloor> \<le> j" by (simp add: floor_le_iff)
  then have ej: "e \<le> j" using assms(3) by (simp add: e_def)
  define k where "k = nat (j - e + 52)"
  have "(2::real) powr of_int (j - e + 52) = 2 powr real k"
    using ej by (simp add: k_def)
  also have "\<dots> = 2 ^ k" by (rule powr_realpow) simp
  finally have k: "(of_int (2 ^ k :: int) :: real) = 2 powr of_int (j - e + 52)" by simp
  have "x / u \<le> 2 powr of_int j / u"
    using assms(2) upos by (simp add: divide_right_mono)
  also have "\<dots> = 2 powr of_int (j - e + 52)"
    by (simp add: u_def powr_diff [symmetric] algebra_simps)
  finally have "x / u \<le> of_int (2 ^ k)" using k by simp
  then have "round_even (x / u) \<le> 2 ^ k" by (rule round_even_le)
  then have "of_int (round_even (x / u)) \<le> (of_int (2 ^ k) :: real)"
    by (simp only: of_int_le_iff)
  then have "r \<le> 2 powr of_int (j - e + 52) * u"
    unfolding r_def k [symmetric] using upos by (intro mult_right_mono) simp_all
  also have "\<dots> = 2 powr of_int j"
    by (simp add: u_def powr_add [symmetric] algebra_simps)
  finally have rj: "r \<le> 2 powr of_int j" .
  have "0 \<le> round_even (x / u)"
    using assms(1) upos by (intro round_even_ge) simp
  then have r0: "0 \<le> r" using upos by (simp add: r_def)
  have "(2::real) powr of_int j < 2 powr of_int emax"
    using assms(4) by (intro powr_less_mono) (simp_all add: emax_def)
  with rj have "r < 2 powr of_int emax" by (rule le_less_trans)
  then have "\<not> 2 powr of_int emax \<le> r" by (simp only: not_le)
  then have "fl x = Fin r"
    using fl_pos_unfold [OF assms(1)] by (simp add: Let_def e_def u_def r_def)
  then show ?thesis using r0 rj by blast
qed

lemma fl_lower:
  assumes "2 powr of_int i \<le> x" "- 1022 \<le> i"
  shows "fl x = PInf \<or> (\<exists>r. fl x = Fin r \<and> 2 powr of_int i \<le> r)"
proof -
  have xpos: "0 < x" using assms(1) by (rule pow2_pos_le)
  define e where "e = max \<lfloor>log 2 x\<rfloor> (- 1022)"
  define u :: real where "u = 2 powr of_int (e - 52)"
  define r :: real where "r = of_int (round_even (x / u)) * u"
  have upos: "0 < u" by (simp add: u_def)
  have "of_int i \<le> log 2 x"
    using assms(1) xpos by (simp add: le_log_iff)
  then have il: "i \<le> \<lfloor>log 2 x\<rfloor>" by (simp add: le_floor_iff)
  then have e: "e = \<lfloor>log 2 x\<rfloor>" using assms(2) by (simp add: e_def)
  have "of_int e \<le> log 2 x" by (simp add: e)
  then have xe: "2 powr of_int e \<le> x" using xpos by (simp add: le_log_iff)
  have "2 powr of_int e / u \<le> x / u"
    using xe upos by (simp add: divide_right_mono)
  moreover have "2 powr of_int e / u = of_int (2 ^ 52)"
  proof -
    have "2 powr of_int e / u = 2 powr 52"
      by (simp add: u_def powr_diff [symmetric] algebra_simps)
    then show ?thesis by simp
  qed
  ultimately have "of_int (2 ^ 52) \<le> x / u" by simp
  then have "2 ^ 52 \<le> round_even (x / u)" by (rule round_even_ge)
  then have "(of_int (2 ^ 52) :: real) \<le> of_int (round_even (x / u))"
    by (simp only: of_int_le_iff)
  then have "of_int (2 ^ 52) * u \<le> r"
    unfolding r_def using upos by (intro mult_right_mono) simp_all
  moreover have "of_int (2 ^ 52) * u = 2 powr of_int e"
  proof -
    have "(of_int (2 ^ 52) :: real) = 2 powr 52" by simp
    then show ?thesis by (simp only: u_def powr_add [symmetric]) simp
  qed
  ultimately have re: "2 powr of_int e \<le> r" by simp
  have "(2::real) powr of_int i \<le> 2 powr of_int e"
    using il e by simp
  with re have ri: "2 powr of_int i \<le> r" by (rule order_trans [rotated])
  have "fl x = (if 2 powr of_int emax \<le> r then PInf else Fin r)"
    using fl_pos_unfold [OF xpos] by (simp add: Let_def e_def u_def r_def)
  then show ?thesis using ri by auto
qed

lemma fl_bounds:
  assumes "2 powr of_int i \<le> x" "x \<le> 2 powr of_int j" "- 1022 \<le> i" "j \<le> 1023"
  shows "\<exists>r. fl x = Fin r \<and> 2 powr of_int i \<le> r \<and> r \<le> 2 powr of_int j"
proof -
  have xpos: "0 < x" using assms(1) by (rule pow2_pos_le)
  have "(2::real) powr of_int i \<le> 2 powr of_int j" using assms(1,2) by (rule order_trans)
  then have "i \<le> j" by simp
  then have j: "- 1022 \<le> j" using assms(3) by simp
  from fl_upper [OF xpos assms(2) j assms(4)]
  obtain r where r: "fl x = Fin r" "r \<le> 2 powr of_int j" by blast
  from fl_lower [OF assms(1,3)] r(1) have "2 powr of_int i \<le> r" by simp
  with r show ?thesis by blast
qed

lemma fl_one [simp]: "fl 1 = Fin 1"
  using fl_bounds [of 0 1 0] by auto

lemma fl_nonneg: "0 \<le> x \<Longrightarrow> nonneg_val (fl x)"
proof (cases "x = 0")
  case True then show ?thesis by simp
next
  case False
  assume "0 \<le> x"
  then have xpos: "0 < x" using False by simp
  define u :: real where "u = 2 powr of_int (max \<lfloor>log 2 x\<rfloor> (- 1022) - 52)"
  have "0 \<le> round_even (x / u)"
    using xpos by (intro round_even_ge) (simp add: u_def)
  then have "0 \<le> of_int (round_even (x / u)) * u" by (simp add: u_def)
  then show ?thesis
    using fl_pos_unfold [OF xpos] by (simp add: Let_def u_def)
qed

lemma fl_underflow:
  assumes "0 \<le> x" "x < 2 powr (- 1075)"
  shows "fl x = Fin 0"
proof (cases "x = 0")
  case True then show ?thesis by simp
next
  case False
  then have xpos: "0 < x" using assms(1) by simp
  have "log 2 x < - 1075" using assms(2) xpos by (simp add: log_less_iff)
  then have "\<lfloor>log 2 x\<rfloor> < - 1075" by (simp add: floor_less_iff)
  then have e: "max \<lfloor>log 2 x\<rfloor> (- 1022) = - 1022" by simp
  define u :: real where "u = 2 powr of_int (- 1022 - 52)"
  have u: "u = 2 powr (- 1074)" by (simp add: u_def)
  have "x / u < 2 powr (- 1075) / 2 powr (- 1074)"
    unfolding u using assms(2) by (intro divide_strict_right_mono) simp_all
  also have "\<dots> = 2 powr (- 1)" by (simp only: powr_diff [symmetric]) simp
  also have "\<dots> = 1 / 2" by (simp add: powr_minus_divide)
  finally have "x / u < 1 / 2" .
  moreover have "0 \<le> x / u" using xpos by (simp add: u_def)
  ultimately have "round_even (x / u) = 0" by (intro round_even_small)
  then show ?thesis
    using fl_pos_unfold [OF xpos] by (simp add: Let_def e u_def)
qed

lemma fl_overflow:
  assumes "2 powr of_int emax \<le> x"
  shows "fl x = PInf"
proof -
  have "- 1022 \<le> emax" by (simp add: emax_def)
  from fl_lower [OF assms this] show ?thesis
  proof
    assume "\<exists>r. fl x = Fin r \<and> 2 powr of_int emax \<le> r"
    then obtain r where r: "fl x = Fin r" "2 powr of_int emax \<le> r" by blast
    have xpos: "0 < x" using assms by (rule pow2_pos_le)
    from fl_pos_unfold [OF xpos] r(1) have False
      by (auto simp: Let_def split: if_splits) (use r(2) in simp)
    then show ?thesis ..
  qed simp
qed

lemma fl_minus: "fl (- x) = np_neg (fl x)"
  by (simp add: fl_def Let_def signed_inf_def sgn_if)

lemma fl_upper_neg:
  assumes "x \<le> - (2 powr of_int i)" "- 1022 \<le> i"
  shows "fl x = NInf \<or> (\<exists>r. fl x = Fin r \<and> r \<le> - (2 powr of_int i))"
proof -
  have "2 powr of_int i \<le> - x" using assms(1) by simp
  from fl_lower [OF this assms(2)] have "fl (- x) = PInf \<or> (\<exists>r. fl (- x) = Fin r \<and> 2 powr of_int i \<le> r)" .
  then show ?thesis
    unfolding fl_minus by (cases "fl x") auto
qed

section \<open>The posterior\<close>

lemma two_pi_rounded: "\<exists>c. fl (2 * pi) = Fin c \<and> 4 \<le> c \<and> c \<le> 8"
proof -
  have "2 powr of_int 2 \<le> 2 * pi" using pi_ge_two by simp
  moreover have "2 * pi \<le> 2 powr of_int 3" using pi_less_4 by simp
  ultimately show ?thesis
    using fl_bounds [of 2 "2 * pi" 3] by simp
qed

lemma signed_inf_nonneg: "0 \<le> x \<Longrightarrow> nonneg_val (signed_inf x)"
  by (simp add: signed_inf_def)

lemma np_sqrt_nonneg: "nonneg_val (np_sqrt x)"
  by (cases x) (simp_all add: fl_nonneg)

lemma np_mul_nonneg: "nonneg_val x \<Longrightarrow> nonneg_val y \<Longrightarrow> nonneg_val (np_mul x y)"
  by (cases x; cases y) (simp_all add: fl_nonneg signed_inf_nonneg)

lemma np_power_nonneg: "0 < a \<Longrightarrow> nonneg_val (np_power a e)"
  by (simp add: np_power_def fl_nonneg)

lemma foldl_np_mul_nonneg:
  "nonneg_val acc \<Longrightarrow> (\<And>x. x \<in> set xs \<Longrightarrow> nonneg_val x) \<Longrightarrow> nonneg_val (foldl np_mul acc xs)"
  by (induction xs arbitrary: acc) (simp_all add: np_mul_nonneg)

lemma posterior_nonneg:
  assumes "0 < a"
  shows "nonneg_val (calculate_posterior self a)"
  unfolding calculate_posterior_def np_product_def Let_def
  by (rule foldl_np_mul_nonneg)
     (auto simp: np_mul_nonneg np_sqrt_nonneg np_power_nonneg [OF assms])

lemma foldl_np_mul_zero:
  "foldl np_mul (Fin 0) (map (\<lambda>_. Fin 0) xs) = Fin 0"
  by (induction xs) simp_all

lemma posterior_at_one:
  "calculate_posterior self 1 = Fin (if data self = [] then 1 else 0)"
proof -
  obtain c where c: "fl (2 * pi) = Fin c" "4 \<le> c" using two_pi_rounded by blast
  have Na: "np_sqrt (np_div (np_log 1) (fl (2 * pi))) = Fin 0"
    using c by (simp add: np_log_def)
  have pw: "np_power 1 e = Fin 1" for e by (simp add: np_power_def)
  have "calculate_posterior self 1 = foldl np_mul (Fin 1) (map (\<lambda>_. Fin 0) (data self))"
    by (simp add: calculate_posterior_def np_product_def Na pw)
  also have "\<dots> = Fin (if data self = [] then 1 else 0)"
    by (cases "data self") (simp_all add: foldl_np_mul_zero)
  finally show ?thesis .
qed

lemma ln_two_ge_half: "1 / 2 \<le> ln (2::real)"
proof -
  have "exp (1 / 2 :: real) \<le> 1 + 1 / 2 + (1 / 2)\<^sup>2"
    by (rule exp_bound) simp_all
  also have "\<dots> \<le> 2" by (simp add: power2_eq_square)
  finally have "exp (1 / 2 :: real) \<le> 2" .
  then have "ln (exp (1 / 2 :: real)) \<le> ln 2" by (subst ln_le_cancel_iff) simp_all
  then show ?thesis by simp
qed

lemma ln_bounds_2_16:
  fixes a :: real
  assumes "2 \<le> a" "a \<le> 16"
  shows "1 / 2 \<le> ln a \<and> ln a \<le> 16"
proof -
  have "ln 2 \<le> ln a" using assms(1) by (subst ln_le_cancel_iff) simp_all
  then have lo: "1 / 2 \<le> ln a" using ln_two_ge_half by simp
  have "ln a \<le> a - 1" using assms(1) by (intro ln_le_minus_one) simp
  then show ?thesis using lo assms(2) by simp
qed

lemma fl_between:
  assumes "lo \<le> x" "x \<le> hi" "lo = 2 powr of_int i" "hi = 2 powr of_int j"
    and "- 1022 \<le> i" "j \<le> 1023"
  shows "\<exists>r. fl x = Fin r \<and> lo \<le> r \<and> r \<le> hi"
  using fl_bounds [of i x j] assms by simp

lemma posterior_single_zero:
  assumes "data self = [0]" "2 \<le> a" "a \<le> 16"
  shows "\<exists>v. calculate_posterior self a = Fin v \<and> 1 / 8 \<le> v \<and> v \<le> 2"
proof -
  have apos: "0 < a" using assms(2) by simp
  obtain c where c: "fl (2 * pi) = Fin c" "4 \<le> c" "c \<le> 8" using two_pi_rounded by blast
  have l: "1 / 2 \<le> ln a" "ln a \<le> 16" using ln_bounds_2_16 [OF assms(2,3)] by simp_all
  have "\<exists>r. fl (ln a) = Fin r \<and> 1 / 2 \<le> r \<and> r \<le> 16"
    by (rule fl_between [OF l, of "- 1" 4]) (simp_all add: powr_minus_divide)
  then obtain l' where l': "fl (ln a) = Fin l'" "1 / 2 \<le> l'" "l' \<le> 16" by blast
  have q: "1 / 16 \<le> l' / c" "l' / c \<le> 4"
    using l' c by (simp_all add: field_simps)
  have "\<exists>r. fl (l' / c) = Fin r \<and> 1 / 16 \<le> r \<and> r \<le> 4"
    by (rule fl_between [OF q, of "- 4" 2]) (simp_all add: powr_minus_divide)
  then obtain q' where q': "fl (l' / c) = Fin q'" "1 / 16 \<le> q'" "q' \<le> 4" by blast
  have "sqrt (1 / 16) \<le> sqrt q'" using q'(2) by (subst real_sqrt_le_iff)
  moreover have "sqrt (1 / 16 :: real) = 1 / 4"
    by (rule real_sqrt_unique) (simp_all add: power2_eq_square)
  moreover have "sqrt q' \<le> sqrt 4" using q'(3) by (subst real_sqrt_le_iff)
  moreover have "sqrt (4 :: real) = 2"
    by (rule real_sqrt_unique) (simp_all add: power2_eq_square)
  ultimately have s: "1 / 4 \<le> sqrt q'" "sqrt q' \<le> 2" by simp_all
  have "\<exists>r. fl (sqrt q') = Fin r \<and> 1 / 4 \<le> r \<and> r \<le> 2"
    by (rule fl_between [OF s, of "- 2" 1]) (simp_all add: powr_minus_divide)
  then obtain s' where s': "fl (sqrt q') = Fin s'" "1 / 4 \<le> s'" "s' \<le> 2" by blast
  have "\<exists>r. fl s' = Fin r \<and> 1 / 4 \<le> r \<and> r \<le> 2"
    by (rule fl_between [OF s'(2,3), of "- 2" 1]) (simp_all add: powr_minus_divide)
  then obtain f where f: "fl s' = Fin f" "1 / 4 \<le> f" "f \<le> 2" by blast
  have "\<exists>r. fl f = Fin r \<and> 1 / 4 \<le> r \<and> r \<le> 2"
    by (rule fl_between [OF f(2,3), of "- 2" 1]) (simp_all add: powr_minus_divide)
  then obtain v where v: "fl f = Fin v" "1 / 4 \<le> v" "v \<le> 2" by blast
  have q0: "0 \<le> q'" using q'(2) by simp
  have Na: "np_sqrt (np_div (np_log a) (fl (2 * pi))) = Fin s'"
    using apos c l' q' s' q0 by (simp add: np_log_def)
  have pw: "np_power a (- (0\<^sup>2) / 2) = Fin 1"
    using apos by (simp add: np_power_def)
  have "calculate_posterior self a = np_mul (Fin 1) (np_mul (Fin s') (Fin 1))"
    unfolding calculate_posterior_def np_product_def Let_def assms(1) Na
    by (simp only: list.map foldl.simps pw)
  also have "\<dots> = Fin v" by (simp add: f v)
  finally show ?thesis using v by (intro exI [of _ v]) simp
qed

section \<open>The loop\<close>

lemma mh_loop_step:
  "real_of_int t \<le> nt \<Longrightarrow> mh_loop self nt g t a p c =
     (case mh_trial self g a p of (a', p', g') \<Rightarrow> mh_loop self nt g' (t + 1) a' p' (c @ [a']))"
  by (subst mh_loop.simps) simp

lemma mh_loop_done:
  "\<not> real_of_int t \<le> nt \<Longrightarrow> mh_loop self nt g t a p c = (c, g)"
  by (subst mh_loop.simps) simp

lemma mh_loop_once:
  "mh_loop self 1 g 1 a p c =
     (case mh_trial self g a p of (a', p', g') \<Rightarrow> (c @ [a'], g'))"
  by (simp add: mh_loop_step mh_loop_done split: prod.splits)

text \<open>The loop appends one entry for each value of the counter up to the bound.\<close>

lemma mh_loop_length:
  "length (fst (mh_loop self nt g t a p chain)) = length chain + nat (\<lfloor>nt\<rfloor> + 1 - t)"
proof (induction self nt g t a p chain rule: mh_loop.induct)
  case (1 self nt g t a p chain)
  show ?case
  proof (cases "real_of_int t \<le> nt")
    case True
    obtain a' p' g' where tr: "mh_trial self g a p = (a', p', g')"
      by (cases "mh_trial self g a p") auto
    have le: "t \<le> \<lfloor>nt\<rfloor>" using True by (simp add: le_floor_iff)
    have "length (fst (mh_loop self nt g' (t + 1) a' p' (chain @ [a']))) =
          length (chain @ [a']) + nat (\<lfloor>nt\<rfloor> + 1 - (t + 1))"
      using "1.IH" [OF True tr [symmetric]] by simp
    then show ?thesis
      using le by (simp add: mh_loop_step [OF True] tr nat_diff_distrib)
  next
    case False
    then have "\<lfloor>nt\<rfloor> < t" by (simp add: floor_less_iff)
    then show ?thesis
      by (simp add: mh_loop_done [OF False])
  qed
qed

lemma metropolis_hastings_length:
  "0 \<le> n \<Longrightarrow> length (fst (metropolis_hastings self g (PyInt n) a_min a_max)) =
     (case chain_attr self of None \<Rightarrow> 1 | Some c \<Rightarrow> if c = [] then 1 else length c) + nat n"
  by (simp add: metropolis_hastings_def uniform_def mh_loop_length split: option.splits)

lemma check_inputs_ok:
  "1 < a_min \<Longrightarrow> a_min < a_max \<Longrightarrow> 0 < n \<Longrightarrow> check_inputs a_min a_max (PyInt n) = None"
  by (simp add: check_inputs_def)

lemma run_mcmc_ok:
  assumes "1 < a_min" "a_min < a_max" "0 < n"
  shows "run_mcmc self g a_min a_max (PyInt n) =
    (None,
     self\<lparr>ntrails := Some (PyInt n),
          chain_attr := Some (fst (metropolis_hastings (self\<lparr>ntrails := Some (PyInt n)\<rparr>) g
                                     (PyInt n) a_min a_max))\<rparr>,
     snd (metropolis_hastings (self\<lparr>ntrails := Some (PyInt n)\<rparr>) g (PyInt n) a_min a_max))"
  using assms by (simp add: run_mcmc_def check_inputs_ok py_truthy_def split: prod.splits)

section \<open>One trial\<close>

lemma mh_trial_unfold:
  "mh_trial self g a p =
     (if np_le (Fin (g 1)) (py_min1 (np_div (calculate_posterior self (1 + 9 * g 0)) p))
      then (1 + 9 * g 0, calculate_posterior self (1 + 9 * g 0), \<lambda>n. g (Suc (Suc n)))
      else (a, p, \<lambda>n. g (Suc (Suc n))))"
  by (simp add: mh_trial_def uniform_def)

lemma mh_trial_fst:
  "fst (mh_trial self g a p) = a \<or> fst (mh_trial self g a p) = fst (uniform 1 10 g)"
  by (simp add: mh_trial_unfold uniform_def)

lemma py_min1_ratio_zero_current:
  "nonneg_val x \<Longrightarrow> py_min1 (np_div x (Fin 0)) = Fin 1"
  by (cases x) (simp_all add: py_min1_def signed_inf_def)

lemma mh_trial_reject_at_one:
  assumes "data self \<noteq> []" "g 0 = 0" "0 < g 1" "p = Fin v" "0 < v"
  shows "mh_trial self g a p = (a, p, \<lambda>n. g (Suc (Suc n)))"
proof -
  have "calculate_posterior self (1 + 9 * g 0) = Fin 0"
    using assms(1,2) by (simp add: posterior_at_one)
  then show ?thesis
    using assms(3,4,5) by (simp add: mh_trial_unfold py_min1_def)
qed

section \<open>Runs under the rejecting generator\<close>

lemma reject_draws_period: "(\<lambda>n. reject_draws (Suc (Suc (Suc n)))) = reject_draws"
  by (rule ext) (simp add: reject_draws_def mod_Suc)

lemma rejecting_run:
  assumes "data self = [0]" "2 \<le> a_min" "a_min < a_max" "a_max \<le> 16"
  shows "metropolis_hastings self reject_draws (PyInt 1) a_min a_max =
         ((case chain_attr self of
             None \<Rightarrow> [(a_min + a_max) / 2]
           | Some c \<Rightarrow> if c = [] then [(a_min + a_max) / 2] else c) @ [(a_min + a_max) / 2],
          reject_draws)"
proof -
  let ?a0 = "(a_min + a_max) / 2"
  let ?g1 = "\<lambda>n. reject_draws (Suc n)"
  let ?c = "case chain_attr self of None \<Rightarrow> [?a0] | Some c \<Rightarrow> if c = [] then [?a0] else c"
  have a0: "2 \<le> ?a0" "?a0 \<le> 16" using assms by simp_all
  obtain v where v: "calculate_posterior self ?a0 = Fin v" "0 < v"
    using posterior_single_zero [OF assms(1) a0] by force
  have tr: "mh_trial self ?g1 ?a0 (Fin v) = (?a0, Fin v, \<lambda>n. ?g1 (Suc (Suc n)))"
    by (rule mh_trial_reject_at_one [where v = v])
       (simp_all add: assms(1) reject_draws_def v)
  have u: "uniform a_min a_max reject_draws = (?a0, ?g1)"
    by (simp add: uniform_def reject_draws_def field_simps)
  have "metropolis_hastings self reject_draws (PyInt 1) a_min a_max =
        mh_loop self 1 ?g1 1 ?a0 (Fin v) ?c"
    by (simp add: metropolis_hastings_def u v)
  also have "\<dots> = (?c @ [?a0], \<lambda>n. ?g1 (Suc (Suc n)))"
    by (simp add: mh_loop_once tr)
  finally show ?thesis by (simp add: reject_draws_period)
qed

lemma first_run:
  "run_mcmc (CalculateE 1 [0]) reject_draws 2 4 (PyInt 1) = (None, after_first_run, reject_draws)"
  by (simp add: run_mcmc_ok rejecting_run CalculateE_def after_first_run_def)

lemma second_run:
  assumes "2 \<le> a_min" "a_min < a_max" "a_max \<le> 16"
  shows "run_mcmc after_first_run reject_draws a_min a_max (PyInt 1) =
         (None, after_first_run\<lparr>chain_attr := Some [3, 3, (a_min + a_max) / 2]\<rparr>, reject_draws)"
proof -
  have v: "1 < a_min" using assms(1) by simp
  have d: "data (after_first_run\<lparr>ntrails := Some (PyInt 1)\<rparr>) = [0]"
    by (simp add: after_first_run_def CalculateE_def)
  show ?thesis
    by (simp add: run_mcmc_ok [OF v assms(2)] rejecting_run [OF d assms])
       (simp add: after_first_run_def CalculateE_def)
qed

section \<open>Draws and accepted proposals\<close>

lemma uniform_range:
  assumes "unit_draws g" "low < high"
  shows "low \<le> fst (uniform low high g) \<and> fst (uniform low high g) < high"
proof -
  have g0: "0 \<le> g 0" "g 0 < 1" using assms(1) by (simp_all add: unit_draws_def)
  have "(high - low) * g 0 < (high - low) * 1"
    using g0(2) assms(2) by (intro mult_strict_left_mono) simp_all
  moreover have "0 \<le> (high - low) * g 0" using g0(1) assms(2) by simp
  ultimately show ?thesis by (simp add: uniform_def)
qed

lemma unit_draws_shift: "unit_draws g \<Longrightarrow> unit_draws (\<lambda>n. g (Suc n))"
  by (simp add: unit_draws_def)

lemma mh_trial_rng: "snd (snd (mh_trial self g a p)) = (\<lambda>n. g (Suc (Suc n)))"
  by (simp add: mh_trial_unfold)

lemma mh_trial_zero_current:
  assumes "unit_draws g"
  shows "mh_trial self g a_current (Fin 0) =
         (fst (uniform 1 10 g), calculate_posterior self (fst (uniform 1 10 g)),
          snd (uniform 0 1 (snd (uniform 1 10 g))))"
proof -
  have g0: "0 \<le> g 0" and g1: "g 1 < 1" using assms by (simp_all add: unit_draws_def)
  then have "0 < 1 + 9 * g 0" by simp
  from posterior_nonneg [OF this, of self]
  have v: "nonneg_val (calculate_posterior self (1 + 9 * g 0))" .
  have acc: "np_le (Fin (g 1)) (py_min1 (np_div (calculate_posterior self (1 + 9 * g 0)) (Fin 0)))"
    unfolding py_min1_ratio_zero_current [OF v] using g1 by simp
  show ?thesis
    by (subst mh_trial_unfold, subst if_P [OF acc]) (simp add: uniform_def)
qed

section \<open>Transitions of a chain started from its seed\<close>

lemma chain_transitions_ok_snoc:
  "chain_transitions_ok (c @ [x]) =
     (chain_transitions_ok c \<and> (c = [] \<or> x = last c \<or> (1 \<le> x \<and> x \<le> 10)))"
  by (induction c rule: chain_transitions_ok.induct) auto

lemma mh_loop_transitions:
  assumes "unit_draws g" "c \<noteq> []" "last c = a" "chain_transitions_ok c"
  shows "chain_transitions_ok (fst (mh_loop self nt g t a p c)) \<and>
         hd (fst (mh_loop self nt g t a p c)) = hd c"
  using assms
proof (induction self nt g t a p c rule: mh_loop.induct)
  case (1 self nt g t a p c)
  show ?case
  proof (cases "real_of_int t \<le> nt")
    case True
    obtain a' p' g' where tr: "mh_trial self g a p = (a', p', g')"
      by (cases "mh_trial self g a p") auto
    have g': "g' = (\<lambda>n. g (Suc (Suc n)))"
      using mh_trial_rng [of self g a p] tr by simp
    have u': "unit_draws g'"
      using "1.prems"(1) by (simp add: g' unit_draws_def)
    have "a' = a \<or> a' = fst (uniform 1 10 g)"
      using mh_trial_fst [of self g a p] tr by simp
    then have step: "a' = last c \<or> (1 \<le> a' \<and> a' \<le> 10)"
      using uniform_range [OF "1.prems"(1), of 1 10] "1.prems"(3) by auto
    have ok: "chain_transitions_ok (c @ [a'])"
      using step "1.prems"(4) by (simp add: chain_transitions_ok_snoc)
    have "chain_transitions_ok (fst (mh_loop self nt g' (t + 1) a' p' (c @ [a']))) \<and>
          hd (fst (mh_loop self nt g' (t + 1) a' p' (c @ [a']))) = hd (c @ [a'])"
      by (rule "1.IH" [OF True tr [symmetric] refl u' _ _ ok]) simp_all
    then show ?thesis
      using "1.prems"(2) by (simp add: mh_loop_step [OF True] tr)
  next
    case False
    then show ?thesis
      using "1.prems" by (simp add: mh_loop_done)
  qed
qed

lemma fresh_chain_transitions:
  assumes "chain_attr self = None" "unit_draws g" "a_min < a_max"
  shows "chain_transitions_ok (fst (metropolis_hastings self g nt a_min a_max)) \<and>
         a_min \<le> hd (fst (metropolis_hastings self g nt a_min a_max)) \<and>
         hd (fst (metropolis_hastings self g nt a_min a_max)) < a_max"
proof -
  let ?a0 = "fst (uniform a_min a_max g)"
  let ?g1 = "snd (uniform a_min a_max g)"
  have m: "metropolis_hastings self g nt a_min a_max =
           mh_loop self (py_real nt) ?g1 1 ?a0 (calculate_posterior self ?a0) [?a0]"
    using assms(1) by (simp add: metropolis_hastings_def split: prod.splits)
  have u1: "unit_draws ?g1"
    using assms(2) by (simp add: uniform_def unit_draws_def)
  have "chain_transitions_ok (fst (mh_loop self (py_real nt) ?g1 1 ?a0 (calculate_posterior self ?a0) [?a0])) \<and>
        hd (fst (mh_loop self (py_real nt) ?g1 1 ?a0 (calculate_posterior self ?a0) [?a0])) = hd [?a0]"
    by (rule mh_loop_transitions [OF u1]) simp_all
  then show ?thesis
    using uniform_range [OF assms(2,3)] by (simp add: m)
qed

lemma mh_loop_entries:
  assumes "unit_draws g" "a = s0 \<or> (1 \<le> a \<and> a \<le> 10)"
    and "list_all (\<lambda>x. x = s0 \<or> (1 \<le> x \<and> x \<le> 10)) c"
  shows "list_all (\<lambda>x. x = s0 \<or> (1 \<le> x \<and> x \<le> 10)) (fst (mh_loop self nt g t a p c))"
  using assms
proof (induction self nt g t a p c rule: mh_loop.induct)
  case (1 self nt g t a p c)
  show ?case
  proof (cases "real_of_int t \<le> nt")
    case True
    obtain a' p' g' where tr: "mh_trial self g a p = (a', p', g')"
      by (cases "mh_trial self g a p") auto
    have g': "g' = (\<lambda>n. g (Suc (Suc n)))"
      using mh_trial_rng [of self g a p] tr by simp
    have u': "unit_draws g'"
      using "1.prems"(1) by (simp add: g' unit_draws_def)
    have "a' = a \<or> a' = fst (uniform 1 10 g)"
      using mh_trial_fst [of self g a p] tr by simp
    then have a': "a' = s0 \<or> (1 \<le> a' \<and> a' \<le> 10)"
      using uniform_range [OF "1.prems"(1), of 1 10] "1.prems"(2) by auto
    have all: "list_all (\<lambda>x. x = s0 \<or> (1 \<le> x \<and> x \<le> 10)) (c @ [a'])"
      using a' "1.prems"(3) by simp
    have "list_all (\<lambda>x. x = s0 \<or> (1 \<le> x \<and> x \<le> 10))
            (fst (mh_loop self nt g' (t + 1) a' p' (c @ [a'])))"
      by (rule "1.IH" [OF True tr [symmetric] refl u' a' all])
    then show ?thesis
      by (simp add: mh_loop_step [OF True] tr)
  next
    case False
    then show ?thesis
      using "1.prems" by (simp add: mh_loop_done)
  qed
qed

lemma fresh_chain_entries:
  assumes "chain_attr self = None" "unit_draws g"
  shows "list_all (\<lambda>x. x = hd (fst (metropolis_hastings self g nt a_min a_max))
                       \<or> (1 \<le> x \<and> x \<le> 10))
           (fst (metropolis_hastings self g nt a_min a_max))"
proof -
  let ?a0 = "fst (uniform a_min a_max g)"
  let ?g1 = "snd (uniform a_min a_max g)"
  have m: "metropolis_hastings self g nt a_min a_max =
           mh_loop self (py_real nt) ?g1 1 ?a0 (calculate_posterior self ?a0) [?a0]"
    using assms(1) by (simp add: metropolis_hastings_def split: prod.splits)
  have u1: "unit_draws ?g1"
    using assms(2) by (simp add: uniform_def unit_draws_def)
  have "hd (fst (mh_loop self (py_real nt) ?g1 1 ?a0 (calculate_posterior self ?a0) [?a0])) = hd [?a0]"
    using mh_loop_transitions [OF u1, of "[?a0]" ?a0] by simp
  then have h: "hd (fst (metropolis_hastings self g nt a_min a_max)) = ?a0"
    by (simp add: m)
  have "list_all (\<lambda>x. x = ?a0 \<or> (1 \<le> x \<and> x \<le> 10))
          (fst (mh_loop self (py_real nt) ?g1 1 ?a0 (calculate_posterior self ?a0) [?a0]))"
    by (rule mh_loop_entries [OF u1]) simp_all
  then show ?thesis
    unfolding h by (simp add: m)
qed

section \<open>The posterior at a large base\<close>

lemma sqrt_between:
  assumes "lo\<^sup>2 \<le> x" "x \<le> hi\<^sup>2" "0 \<le> lo" "0 \<le> hi"
  shows "lo \<le> sqrt x \<and> sqrt x \<le> hi"
proof -
  have "sqrt (lo\<^sup>2) \<le> sqrt x" using assms(1) by (subst real_sqrt_le_iff)
  moreover have "sqrt x \<le> sqrt (hi\<^sup>2)" using assms(2) by (subst real_sqrt_le_iff)
  ultimately show ?thesis using assms(3,4) by simp
qed

lemma a_big_gt: "16 < a_big"
proof -
  have "(2::real) powr 4 < 2 powr 1000" by (rule powr_less_mono) simp_all
  moreover have "(2::real) powr 4 = 16" by simp
  ultimately show ?thesis by (simp only: a_big_def)
qed

lemma ln_big: "ln a_big = 1000 * ln 2"
  unfolding a_big_def by (rule ln_powr)

lemma Na_big:
  "\<exists>s. np_sqrt (np_div (np_log a_big) (fl (2 * pi))) = Fin s \<and> 4 \<le> s \<and> s \<le> 16"
proof -
  obtain c where c: "fl (2 * pi) = Fin c" "4 \<le> c" "c \<le> 8" using two_pi_rounded by blast
  have "ln (2::real) \<le> 1" using ln_le_minus_one [of "2::real"] by simp
  then have l: "256 \<le> ln a_big" "ln a_big \<le> 1024"
    unfolding ln_big using ln_two_ge_half by simp_all
  have "\<exists>r. fl (ln a_big) = Fin r \<and> 256 \<le> r \<and> r \<le> 1024"
    by (rule fl_between [OF l, of 8 10]) simp_all
  then obtain l' where l': "fl (ln a_big) = Fin l'" "256 \<le> l'" "l' \<le> 1024" by blast
  have q: "32 \<le> l' / c" "l' / c \<le> 256"
    using l' c by (simp_all add: field_simps)
  have "\<exists>r. fl (l' / c) = Fin r \<and> 32 \<le> r \<and> r \<le> 256"
    by (rule fl_between [OF q, of 5 8]) simp_all
  then obtain q' where q': "fl (l' / c) = Fin q'" "32 \<le> q'" "q' \<le> 256" by blast
  have s: "4 \<le> sqrt q'" "sqrt q' \<le> 16"
    using sqrt_between [of 4 q' 16] q' by simp_all
  have "\<exists>r. fl (sqrt q') = Fin r \<and> 4 \<le> r \<and> r \<le> 16"
    by (rule fl_between [OF s, of 2 4]) simp_all
  then obtain s' where s': "fl (sqrt q') = Fin s'" "4 \<le> s'" "s' \<le> 16" by blast
  have "0 \<le> q'" using q'(2) by simp
  moreover have "0 < a_big" using a_big_gt by simp
  ultimately have "np_sqrt (np_div (np_log a_big) (fl (2 * pi))) = Fin s'"
    using c l' q' s' by (simp add: np_log_def)
  then show ?thesis using s' by blast
qed

lemma power_big_underflows: "np_power a_big (- (2\<^sup>2) / 2) = Fin 0"
proof -
  have e: "(1000::real) * (- (2\<^sup>2) / 2) = - 2000" by simp
  have "a_big powr (- (2\<^sup>2) / 2) = 2 powr (1000 * (- (2\<^sup>2) / 2))"
    by (simp only: a_big_def powr_powr)
  then have p: "a_big powr (- (2\<^sup>2) / 2) = 2 powr (- 2000)"
    by (simp only: e)
  have "(2::real) powr (- 2000) < 2 powr (- 1075)"
    by (rule powr_less_mono) simp_all
  then have "fl (2 powr (- 2000)) = Fin 0"
    by (intro fl_underflow) simp_all
  then have "fl (a_big powr (- (2\<^sup>2) / 2)) = Fin 0" by (simp only: p)
  moreover have "0 < a_big" using a_big_gt by simp
  ultimately show ?thesis by (simp only: np_power_def if_True)
qed

lemma power_big_zero_obs: "np_power a_big (- (0\<^sup>2) / 2) = Fin 1"
proof -
  have "0 < a_big" using a_big_gt by simp
  then show ?thesis by (simp add: np_power_def)
qed

lemma np_mul_grows:
  assumes "4 \<le> f"
    and "acc = PInf \<or> (\<exists>p. acc = Fin p \<and> 2 powr of_int (2 * int k) \<le> p)"
  shows "np_mul acc (Fin f) = PInf \<or>
         (\<exists>p. np_mul acc (Fin f) = Fin p \<and> 2 powr of_int (2 * int (Suc k)) \<le> p)"
  using assms(2)
proof
  assume "acc = PInf"
  then show ?thesis using assms(1) by (simp add: signed_inf_def)
next
  assume "\<exists>p. acc = Fin p \<and> 2 powr of_int (2 * int k) \<le> p"
  then obtain p where p: "acc = Fin p" "2 powr of_int (2 * int k) \<le> p" by blast
  have p0: "0 \<le> p" using pow2_pos_le [OF p(2)] by simp
  have "of_int (2 * int (Suc k)) = (of_int (2 * int k) + 2 :: real)" by simp
  then have "(2::real) powr of_int (2 * int (Suc k)) = 2 powr of_int (2 * int k) * 2 powr 2"
    by (simp only: powr_add)
  also have "\<dots> = 2 powr of_int (2 * int k) * 4" by simp
  also have "\<dots> \<le> p * f"
    using p(2) assms(1) p0 by (intro mult_mono) simp_all
  finally have "2 powr of_int (2 * int (Suc k)) \<le> p * f" .
  then have "fl (p * f) = PInf \<or> (\<exists>r. fl (p * f) = Fin r \<and> 2 powr of_int (2 * int (Suc k)) \<le> r)"
    by (rule fl_lower) simp
  then show ?thesis by (simp add: p(1))
qed

lemma product_grows:
  assumes "4 \<le> f"
    and "acc = PInf \<or> (\<exists>p. acc = Fin p \<and> 2 powr of_int (2 * int k) \<le> p)"
  shows "foldl np_mul acc (replicate n (Fin f)) = PInf \<or>
         (\<exists>p. foldl np_mul acc (replicate n (Fin f)) = Fin p \<and>
              2 powr of_int (2 * int (k + n)) \<le> p)"
  using assms(2)
proof (induction n arbitrary: acc k)
  case 0
  then show ?case by simp
next
  case (Suc n)
  from np_mul_grows [OF assms(1) Suc.prems]
  have "foldl np_mul (np_mul acc (Fin f)) (replicate n (Fin f)) = PInf \<or>
        (\<exists>p. foldl np_mul (np_mul acc (Fin f)) (replicate n (Fin f)) = Fin p \<and>
             2 powr of_int (2 * int (Suc k + n)) \<le> p)"
    by (rule Suc.IH)
  then show ?case by simp
qed

lemma product_overflows:
  assumes "4 \<le> f"
  shows "foldl np_mul (Fin 1) (replicate 513 (Fin f)) = PInf"
proof -
  have start: "Fin 1 = PInf \<or> (\<exists>p. Fin 1 = Fin p \<and> 2 powr of_int (2 * int 0) \<le> p)"
    by simp
  have e: "of_int (2 * int (0 + 512)) = (of_int emax :: real)" by (simp add: emax_def)
  from product_grows [OF assms start, of 512]
  have big: "foldl np_mul (Fin 1) (replicate 512 (Fin f)) = PInf \<or>
        (\<exists>p. foldl np_mul (Fin 1) (replicate 512 (Fin f)) = Fin p \<and> 2 powr of_int emax \<le> p)"
    by (simp only: e)
  have "np_mul (foldl np_mul (Fin 1) (replicate 512 (Fin f))) (Fin f) = PInf"
    using big
  proof
    assume "foldl np_mul (Fin 1) (replicate 512 (Fin f)) = PInf"
    then show ?thesis using assms by (simp add: signed_inf_def)
  next
    assume "\<exists>p. foldl np_mul (Fin 1) (replicate 512 (Fin f)) = Fin p \<and> 2 powr of_int emax \<le> p"
    then obtain p where p: "foldl np_mul (Fin 1) (replicate 512 (Fin f)) = Fin p"
      "2 powr of_int emax \<le> p" by blast
    have p0: "0 \<le> p" using pow2_pos_le [OF p(2)] by simp
    have "p * 1 \<le> p * f" using assms p0 by (intro mult_left_mono) simp_all
    then have "2 powr of_int emax \<le> p * f" using p(2) by simp
    then have "fl (p * f) = PInf" by (rule fl_overflow)
    then show ?thesis by (simp only: p(1) np_mul.simps)
  qed
  moreover have "replicate 513 (Fin f) = replicate 512 (Fin f) @ [Fin f]"
  proof -
    have "(513::nat) = Suc 512" by simp
    then show ?thesis by (simp only: replicate_Suc replicate_append_same)
  qed
  ultimately show ?thesis by (simp only: foldl_append foldl.simps)
qed

section \<open>The posterior below one\<close>

lemma np_mul_NaN_right [simp]: "np_mul x NaN = NaN"
  by (cases x) simp_all

lemma foldl_np_mul_NaN [simp]: "foldl np_mul NaN xs = NaN"
  by (induction xs) simp_all

lemma Na_below_one:
  assumes "a \<le> 1 - 2 powr (- 53)"
  shows "np_sqrt (np_div (np_log a) (fl (2 * pi))) = NaN"
proof -
  obtain c where c: "fl (2 * pi) = Fin c" "4 \<le> c" "c \<le> 8" using two_pi_rounded by blast
  show ?thesis
  proof (cases "0 < a")
    case False
    then show ?thesis using c by (simp add: np_log_def)
  next
    case True
    have "ln a \<le> a - 1" using True by (rule ln_le_minus_one)
    then have "ln a \<le> - (2 powr of_int (- 53))" using assms by simp
    then have "fl (ln a) = NInf \<or> (\<exists>r. fl (ln a) = Fin r \<and> r \<le> - (2 powr of_int (- 53)))"
      by (rule fl_upper_neg) simp
    then show ?thesis
    proof
      assume "fl (ln a) = NInf"
      then show ?thesis using True c by (simp add: np_log_def)
    next
      assume "\<exists>r. fl (ln a) = Fin r \<and> r \<le> - (2 powr of_int (- 53))"
      then obtain r where r: "fl (ln a) = Fin r" "r \<le> - (2 powr of_int (- 53))" by blast
      have "(2::real) powr of_int (- 56) = 2 powr of_int (- 53) / 2 powr 3"
        by (simp only: powr_diff [symmetric]) simp
      also have "\<dots> = 2 powr of_int (- 53) / 8" by simp
      also have "\<dots> \<le> 2 powr of_int (- 53) / c"
        using c by (intro divide_left_mono) simp_all
      also have "\<dots> \<le> (- r) / c"
        using r(2) c by (intro divide_right_mono) simp_all
      finally have "r / c \<le> - (2 powr of_int (- 56))" by simp
      then have "fl (r / c) = NInf \<or> (\<exists>q. fl (r / c) = Fin q \<and> q \<le> - (2 powr of_int (- 56)))"
        by (rule fl_upper_neg) simp
      then have "np_sqrt (fl (r / c)) = NaN"
      proof
        assume "fl (r / c) = NInf" then show ?thesis by simp
      next
        assume "\<exists>q. fl (r / c) = Fin q \<and> q \<le> - (2 powr of_int (- 56))"
        then obtain q where q: "fl (r / c) = Fin q" "q \<le> - (2 powr of_int (- 56))" by blast
        have "2 powr of_int (- 56) \<le> - q" using q(2) by simp
        then have "0 < - q" by (rule pow2_pos_le)
        then have "q < 0" by simp
        then show ?thesis by (simp add: q(1))
      qed
      then show ?thesis using True c r by (simp add: np_log_def)
    qed
  qed
qed

lemma posterior_below_one:
  assumes "a \<le> 1 - 2 powr (- 53)" "data self \<noteq> []"
  shows "calculate_posterior self a = NaN"
  using assms(2)
  by (cases "data self")
     (simp_all add: calculate_posterior_def np_product_def Na_below_one [OF assms(1)])

lemma posterior_big:
  "\<exists>s. 4 \<le> s \<and> s \<le> 16 \<and>
       calculate_posterior self a_big =
         np_product (map (\<lambda>x. np_mul (Fin s) (np_power a_big (- (x\<^sup>2) / 2))) (data self))"
proof -
  obtain s where s: "np_sqrt (np_div (np_log a_big) (fl (2 * pi))) = Fin s" "4 \<le> s" "s \<le> 16"
    using Na_big by blast
  then show ?thesis
    by (intro exI [of _ s]) (simp add: calculate_posterior_def del: np_sqrt.simps np_div.simps)
qed

section \<open>The grid\<close>

text \<open>
  What \<^verbatim>\<open>uniformly_sample_space\<close> does with the grid that \<^verbatim>\<open>np.linspace\<close> returns: it
  stores the grid and, in the grid's order, the posterior of each of its entries.
\<close>

lemma calculate_posterior_data:
  "data self' = data self \<Longrightarrow> calculate_posterior self' = calculate_posterior self"
  by (rule ext) (simp add: calculate_posterior_def)

lemma uniformly_sample_space_ok:
  assumes "1 < a_min" "a_min < a_max" "0 < n" "np_linspace a_min a_max (PyInt n) = Inr arr"
  shows "uniformly_sample_space np_linspace self a_min a_max (PyInt n) =
         (None, self\<lparr>ntrails := Some (PyInt n), a_array := Some arr,
                     posterior := Some (map (calculate_posterior self) arr)\<rparr>)"
proof -
  have "calculate_posterior (self\<lparr>ntrails := Some (PyInt n), a_array := Some arr\<rparr>) =
        calculate_posterior self"
    by (rule calculate_posterior_data) simp
  then show ?thesis
    using assms by (simp add: uniformly_sample_space_def check_inputs_ok py_truthy_def)
qed

section \<open>The claims\<close>

text \<open>
  C1. Claimed: when the estimator already has a chain, \<^verbatim>\<open>run_mcmc\<close> continues from the
  last value of the chain, with that value's posterior, and draws no fresh seed. The
  code draws \<open>a0\<close> from \<open>[a_min, a_max]\<close> on every call and starts the loop from it;
  the existing chain is only the list that is appended to. Here a fresh estimator runs
  one trial on \<open>[2, 4]\<close> and ends with the chain \<open>[3, 3]\<close>; a second call for one trial on
  \<open>[5, 7]\<close> rejects its proposal and appends 6, the new seed, where continuing from the
  last value would have appended 3 or the proposal. The result differs from the loop
  started at the last value of the chain.
\<close>

theorem resumed_run_draws_fresh_seed:
  "run_mcmc (CalculateE 1 [0]) reject_draws 2 4 (PyInt 1) = (None, after_first_run, reject_draws) \<and>
   chain_attr after_first_run = Some [3, 3] \<and>
   chain_attr (fst (snd (run_mcmc after_first_run reject_draws 5 7 (PyInt 1)))) = Some [3, 3, 6] \<and>
   fst (metropolis_hastings after_first_run reject_draws (PyInt 1) 5 7) \<noteq>
   fst (mh_loop after_first_run (py_real (PyInt 1)) reject_draws 1 (last [3, 3])
          (calculate_posterior after_first_run (last [3, 3])) [3, 3])"
proof -
  have d: "data after_first_run = [0]" by (simp add: after_first_run_def CalculateE_def)
  have c: "chain_attr after_first_run = Some [3, 3]" by (simp add: after_first_run_def)
  have m: "fst (metropolis_hastings after_first_run reject_draws (PyInt 1) 5 7) = [3, 3, 6]"
    by (simp add: rejecting_run [OF d] c)
  have "fst (uniform 1 10 reject_draws) = 11 / 2"
    by (simp add: uniform_def reject_draws_def)
  with mh_trial_fst [of after_first_run reject_draws 3 "calculate_posterior after_first_run 3"]
  have "fst (mh_trial after_first_run reject_draws 3 (calculate_posterior after_first_run 3)) \<noteq> 6"
    by auto
  then have "fst (mh_loop after_first_run 1 reject_draws 1 3
          (calculate_posterior after_first_run 3) [3, 3]) \<noteq> [3, 3, 6]"
    by (auto simp: mh_loop_once split: prod.splits)
  then show ?thesis
    using m by (simp add: first_run second_run c)
qed

text \<open>
  C2. For a valid range and positive trial counts \<open>n\<close> and \<open>m\<close>: on an estimator without
  a chain \<^verbatim>\<open>run_mcmc(a_min, a_max, n)\<close> returns normally with a chain of length \<open>n + 1\<close>;
  a following \<^verbatim>\<open>run_mcmc(a_min, a_max, m)\<close> returns normally with a chain of length
  \<open>(n + 1) + m\<close>; and on any estimator, whatever its chain, \<^verbatim>\<open>restart_chain\<close> followed
  by \<^verbatim>\<open>run_mcmc(a_min, a_max, n)\<close> gives a chain of length \<open>n + 1\<close>.
\<close>

theorem chain_length_law:
  assumes "1 < a_min" "a_min < a_max" "0 < n" "0 < m" "chain_attr self = None"
  shows "fst (run_mcmc self g a_min a_max (PyInt n)) = None
       \<and> map_option length (chain_attr (fst (snd (run_mcmc self g a_min a_max (PyInt n))))) =
           Some (nat (n + 1))
       \<and> (case run_mcmc self g a_min a_max (PyInt n) of
            (e1, self1, g1) \<Rightarrow>
              fst (run_mcmc self1 g1 a_min a_max (PyInt m)) = None \<and>
              map_option length
                (chain_attr (fst (snd (run_mcmc self1 g1 a_min a_max (PyInt m))))) =
                Some (nat ((n + 1) + m)))
       \<and> fst (run_mcmc (restart_chain other) h a_min a_max (PyInt n)) = None
       \<and> map_option length
            (chain_attr (fst (snd (run_mcmc (restart_chain other) h a_min a_max (PyInt n))))) =
            Some (nat (n + 1))"
proof -
  have fresh: "fst (run_mcmc s k a_min a_max (PyInt n)) = None \<and>
        map_option length (chain_attr (fst (snd (run_mcmc s k a_min a_max (PyInt n))))) =
          Some (nat (n + 1))"
    if "chain_attr s = None" for s k
    using that assms(3)
    by (simp add: run_mcmc_ok [OF assms(1,2,3)] metropolis_hastings_length nat_add_distrib)
  have resumed: "fst (run_mcmc s1 k1 a_min a_max (PyInt m)) = None \<and>
        map_option length (chain_attr (fst (snd (run_mcmc s1 k1 a_min a_max (PyInt m))))) =
          Some (nat ((n + 1) + m))"
    if "run_mcmc s k a_min a_max (PyInt n) = (e1, s1, k1)" "chain_attr s = None"
    for s k e1 s1 k1
  proof -
    from fresh [OF that(2), of k] that(1)
    obtain c where c: "chain_attr s1 = Some c" "length c = nat (n + 1)"
      by auto
    then have "c \<noteq> []" using assms(3) by auto
    then show ?thesis
      using c assms(3,4)
      by (simp add: run_mcmc_ok [OF assms(1,2,4)] metropolis_hastings_length nat_add_distrib)
  qed
  have r: "chain_attr (restart_chain other) = None" by (simp add: restart_chain_def)
  show ?thesis
    using fresh [OF assms(5), of g] fresh [OF r, of h] resumed [OF _ assms(5), of g]
    by (auto split: prod.splits)
qed

theorem chain_length_law_witness:
  "fst (run_mcmc (CalculateE 1 [0]) reject_draws 2 4 (PyInt 1)) = None \<and>
   map_option length
     (chain_attr (fst (snd (run_mcmc (CalculateE 1 [0]) reject_draws 2 4 (PyInt 1))))) = Some 2 \<and>
   map_option length
     (chain_attr (fst (snd (run_mcmc after_first_run reject_draws 2 4 (PyInt 3))))) = Some 5 \<and>
   map_option length
     (chain_attr (fst (snd (run_mcmc (restart_chain after_first_run) reject_draws 2 4 (PyInt 1))))) =
     Some 2"
proof -
  have c: "chain_attr (CalculateE 1 [0]) = None" by (simp add: CalculateE_def)
  show ?thesis
    using chain_length_law [of 2 4 1 3 "CalculateE 1 [0]" reject_draws after_first_run reject_draws, OF _ _ _ _ c]
    by (simp add: first_run)
qed

text \<open>
  C3. Claimed: a trial whose current posterior is exactly zero makes the run raise a
  \<^verbatim>\<open>DegenerateLikelihood\<close> error. The code has no such error and no test of the
  divisor: with the single observation 0 and every unit draw 0, \<^verbatim>\<open>run_mcmc(2, 10, 2)\<close>
  accepts the proposal 1, whose posterior is 0, in its first trial, computes \<^verbatim>\<open>0/0\<close> in
  its second trial, and returns normally with the chain \<open>[2, 1, 1]\<close>.
\<close>

theorem zero_posterior_no_error:
  "mh_trial (CalculateE 1 [0]) (\<lambda>_. 0) 2 (calculate_posterior (CalculateE 1 [0]) 2) =
     (1, Fin 0, \<lambda>_. 0) \<and>
   fst (run_mcmc (CalculateE 1 [0]) (\<lambda>_. 0) 2 10 (PyInt 2)) = None \<and>
   chain_attr (fst (snd (run_mcmc (CalculateE 1 [0]) (\<lambda>_. 0) 2 10 (PyInt 2)))) = Some [2, 1, 1]"
proof -
  let ?s = "CalculateE 1 [0]"
  let ?s1 = "?s\<lparr>ntrails := Some (PyInt 2)\<rparr>"
  let ?z = "\<lambda>_::nat. 0::real"
  have one: "calculate_posterior s 1 = Fin 0" if "data s \<noteq> []" for s
    using that by (simp add: posterior_at_one)
  obtain v where v0: "calculate_posterior ?s 2 = Fin v" and vpos: "0 < v"
    using posterior_single_zero [of ?s 2] by (force simp: CalculateE_def)
  have v: "calculate_posterior s 2 = Fin v" if "data s = [0]" for s
  proof -
    have "data s = data ?s" using that by (simp add: CalculateE_def)
    then show ?thesis using v0 by (simp add: calculate_posterior_def)
  qed
  have t1: "mh_trial s ?z 2 (Fin v) = (1, Fin 0, ?z)" if "data s = [0]" for s
    using vpos that by (simp add: mh_trial_unfold one py_min1_def)
  have t2: "mh_trial s ?z 1 (Fin 0) = (1, Fin 0, ?z)" if "data s = [0]" for s
    using that by (simp add: mh_trial_unfold one py_min1_def signed_inf_def)
  have d: "data ?s = [0]" "data ?s1 = [0]" by (simp_all add: CalculateE_def)
  have "metropolis_hastings ?s1 ?z (PyInt 2) 2 10 = mh_loop ?s1 2 ?z 1 2 (Fin v) [2]"
    by (simp add: metropolis_hastings_def uniform_def v [OF d(2)]) (simp add: CalculateE_def)
  also have "\<dots> = mh_loop ?s1 2 ?z 2 1 (Fin 0) [2, 1]"
    by (simp add: mh_loop_step t1 [OF d(2)])
  also have "\<dots> = mh_loop ?s1 2 ?z 3 1 (Fin 0) [2, 1, 1]"
    by (simp add: mh_loop_step t2 [OF d(2)])
  also have "\<dots> = ([2, 1, 1], ?z)"
    by (simp add: mh_loop_done)
  finally have m: "metropolis_hastings ?s1 ?z (PyInt 2) 2 10 = ([2, 1, 1], ?z)" .
  show ?thesis
    using t1 [OF d(1)] by (simp add: v [OF d(1)] run_mcmc_ok m)
qed

text \<open>
  C3, as the code has it. When the current posterior is exactly zero, the quotient is an
  infinity or not-a-number, \<^verbatim>\<open>min(1, _)\<close> is 1 and the proposal is accepted whatever
  the uniform draw is: the proposal and its posterior become the current state, and the
  value appended to the chain is the proposal, a finite number in \<open>[1, 10)\<close>. A call of
  \<^verbatim>\<open>run_mcmc\<close> with valid arguments returns without an error.
\<close>

theorem zero_current_posterior_accepts:
  assumes "unit_draws g" "1 < a_min" "a_min < a_max" "0 < n"
  shows "py_min1 (np_div (calculate_posterior self (fst (uniform 1 10 g))) (Fin 0)) = Fin 1
       \<and> mh_trial self g a_current (Fin 0) =
           (fst (uniform 1 10 g), calculate_posterior self (fst (uniform 1 10 g)),
            snd (uniform 0 1 (snd (uniform 1 10 g))))
       \<and> 1 \<le> fst (mh_trial self g a_current (Fin 0))
       \<and> fst (mh_trial self g a_current (Fin 0)) < 10
       \<and> fst (run_mcmc self g a_min a_max (PyInt n)) = None"
proof -
  have r: "1 \<le> fst (uniform 1 10 g) \<and> fst (uniform 1 10 g) < 10"
    using uniform_range [OF assms(1), of 1 10] by simp
  then have v: "nonneg_val (calculate_posterior self (fst (uniform 1 10 g)))"
    by (intro posterior_nonneg) simp
  have run: "fst (run_mcmc self g a_min a_max (PyInt n)) = None"
    by (simp add: run_mcmc_ok [OF assms(2,3,4)])
  show ?thesis
    using r run
    by (simp add: mh_trial_zero_current [OF assms(1)] py_min1_ratio_zero_current [OF v]
             del: np_div.simps)
qed

theorem zero_current_posterior_accepts_witness:
  "mh_trial (CalculateE 1 [0]) (\<lambda>_. 0) 2 (Fin 0) = (1, Fin 0, \<lambda>_. 0) \<and>
   fst (run_mcmc (CalculateE 1 [0]) (\<lambda>_. 0) 2 10 (PyInt 2)) = None"
proof -
  have u: "unit_draws (\<lambda>_. 0)" by (simp add: unit_draws_def)
  show ?thesis
    using zero_current_posterior_accepts [OF u, of 2 10 2 "CalculateE 1 [0]" 2]
    by (simp add: uniform_def posterior_at_one CalculateE_def)
qed

text \<open>
  C4. Claimed: after a trial has run, no entry of the chain but the seed entry lies
  outside \<open>[1, 10]\<close>. A rejected proposal repeats the current value, and the seed range
  need not lie in \<open>[1, 10]\<close>: a fresh \<^verbatim>\<open>run_mcmc(11, 13, 1)\<close> that rejects its proposal
  ends with the chain \<open>[12, 12]\<close>, whose second entry is outside \<open>[1, 10]\<close>.
\<close>

theorem fresh_run_repeats_seed_above_ten:
  "chain_attr (fst (snd (run_mcmc (CalculateE 1 [0]) reject_draws 11 13 (PyInt 1)))) =
     Some [12, 12] \<and>
   \<not> list_all (\<lambda>x. 1 \<le> x \<and> x \<le> 10) (tl [12, 12 :: real])"
proof -
  have d: "data ((CalculateE 1 [0])\<lparr>ntrails := Some (PyInt 1)\<rparr>) = [0]"
    by (simp add: CalculateE_def)
  show ?thesis
    by (simp add: run_mcmc_ok rejecting_run [OF d]) (simp add: CalculateE_def)
qed

text \<open>
  C4, as the code has it, for a run on an estimator without a chain (fresh, or after
  \<^verbatim>\<open>restart_chain\<close>) under a well-formed generator: the first entry is the seed, in
  \<open>[a_min, a_max]\<close>; each later entry repeats the entry before it or lies in \<open>[1, 10]\<close>;
  and every entry equals the seed or lies in \<open>[1, 10]\<close>.
\<close>

theorem fresh_chain_transition_law:
  assumes "chain_attr self = None" "unit_draws g" "1 < a_min" "a_min < a_max" "0 < n"
  shows "fst (run_mcmc self g a_min a_max (PyInt n)) = None \<and>
         (\<exists>c. chain_attr (fst (snd (run_mcmc self g a_min a_max (PyInt n)))) = Some c \<and>
              chain_transitions_ok c \<and> a_min \<le> hd c \<and> hd c < a_max \<and>
              list_all (\<lambda>x. x = hd c \<or> (1 \<le> x \<and> x \<le> 10)) c)"
proof -
  let ?s1 = "self\<lparr>ntrails := Some (PyInt n)\<rparr>"
  have c: "chain_attr ?s1 = None" using assms(1) by simp
  show ?thesis
    using fresh_chain_transitions [OF c assms(2,4), of "PyInt n"]
      fresh_chain_entries [OF c assms(2), of "PyInt n" a_min a_max]
    by (simp add: run_mcmc_ok [OF assms(3,4,5)])
qed

theorem fresh_chain_transition_law_witness:
  "\<exists>c. chain_attr (fst (snd (run_mcmc (CalculateE 1 [0]) reject_draws 2 4 (PyInt 1)))) = Some c \<and>
       chain_transitions_ok c \<and> 2 \<le> hd c \<and> hd c < 4 \<and>
       list_all (\<lambda>x. x = hd c \<or> (1 \<le> x \<and> x \<le> 10)) c"
proof -
  have c: "chain_attr (CalculateE 1 [0]) = None" by (simp add: CalculateE_def)
  have u: "unit_draws reject_draws" by (simp add: unit_draws_def reject_draws_def)
  show ?thesis
    using fresh_chain_transition_law [OF c u, of 2 4 1] by simp
qed

text \<open>
  On a resumed run the appended entry can be the new seed, which neither repeats the
  last entry of the chain nor lies in \<open>[1, 10]\<close>.
\<close>

lemma resumed_chain_breaks_transition_bound:
  "chain_attr (fst (snd (run_mcmc after_first_run reject_draws 11 13 (PyInt 1)))) = Some [3, 3, 12] \<and>
   \<not> chain_transitions_ok [3, 3, 12]"
  by (simp add: second_run)







text \<open>
  C8. When \<open>a_min \<le> 1\<close>, or \<open>a_min \<ge> a_max\<close>, or the trial count is not a positive
  \<^verbatim>\<open>int\<close>, both \<^verbatim>\<open>uniformly_sample_space\<close> and \<^verbatim>\<open>run_mcmc\<close> raise (an
  \<^verbatim>\<open>AssertionError\<close>) before anything else happens: the estimator is returned as it
  was, grid and chain included, and no random number has been drawn.
\<close>

theorem validation_rejects_unchanged:
  assumes "a_min \<le> 1 \<or> a_max \<le> a_min \<or> \<not> (0 < py_real nt \<and> isinstance_int nt)"
  shows "uniformly_sample_space np_linspace self a_min a_max nt = (Some AssertionError, self) \<and>
         run_mcmc self g a_min a_max nt = (Some AssertionError, self, g)"
proof -
  have "check_inputs a_min a_max nt = Some AssertionError"
    using assms by (auto simp: check_inputs_def)
  then show ?thesis
    by (simp add: uniformly_sample_space_def run_mcmc_def)
qed

theorem validation_rejects_unchanged_witness:
  "uniformly_sample_space (\<lambda>start stop num. Inr [start, stop]) after_first_run (1 / 2) 5 (PyInt 10) =
     (Some AssertionError, after_first_run) \<and>
   run_mcmc after_first_run reject_draws (1 / 2) 5 (PyInt 10) =
     (Some AssertionError, after_first_run, reject_draws) \<and>
   run_mcmc after_first_run reject_draws 2 5 (PyFloat (5 / 2)) =
     (Some AssertionError, after_first_run, reject_draws)"
  using validation_rejects_unchanged
          [of "1 / 2" 5 "PyInt 10" "\<lambda>start stop num. Inr [start, stop]" after_first_run reject_draws]
    validation_rejects_unchanged
          [of 2 5 "PyFloat (5 / 2)" "\<lambda>start stop num. Inr [start, stop]" after_first_run reject_draws]
  by simp

text \<open>
  C9. Claimed: \<open>a_min\<close> and \<open>a_max\<close> matter only for the seed of a run that is given no
  chain. Each proposal is indeed \<^verbatim>\<open>uniform(1, 10)\<close>, whatever the range is (the loop does
  not read \<open>a_min\<close> and \<open>a_max\<close>). But the seed is drawn
  from \<open>[a_min, a_max]\<close> on every call and is the loop's first current value also when
  a chain exists: from the same chain \<open>[3, 3]\<close> and the same generator, the ranges
  \<open>[5, 7]\<close> and \<open>[11, 13]\<close> give the chains \<open>[3, 3, 6]\<close> and \<open>[3, 3, 12]\<close>.
\<close>

theorem range_changes_resumed_chain:
  "chain_attr (fst (snd (run_mcmc after_first_run reject_draws 5 7 (PyInt 1)))) = Some [3, 3, 6] \<and>
   chain_attr (fst (snd (run_mcmc after_first_run reject_draws 11 13 (PyInt 1)))) = Some [3, 3, 12] \<and>
   fst (metropolis_hastings after_first_run reject_draws (PyInt 1) 5 7) \<noteq>
   fst (metropolis_hastings after_first_run reject_draws (PyInt 1) 11 13)"
proof -
  have d: "data after_first_run = [0]" by (simp add: after_first_run_def CalculateE_def)
  show ?thesis
    by (simp add: second_run rejecting_run [OF d])
qed

text \<open>
  C10. In a trial whose current posterior is positive and whose proposal has a posterior
  at least as large, the acceptance probability \<^verbatim>\<open>min(1, p_trial / p_current)\<close> is 1 and
  the proposal is accepted: the trial returns the proposal and its posterior as the new
  current state, whatever the draw \<open>u\<close> from \<open>[0, 1)\<close> is.
\<close>

theorem better_proposal_accepted:
  assumes "prob_a_current = Fin pc" "0 < pc"
    and "calculate_posterior self (fst (uniform 1 10 g)) = Fin pt" "pc \<le> pt"
    and "unit_draws g"
  shows "py_min1 (np_div (Fin pt) prob_a_current) = Fin 1 \<and>
         mh_trial self g a_current prob_a_current =
         (fst (uniform 1 10 g), Fin pt, snd (uniform 0 1 (snd (uniform 1 10 g))))"
proof -
  have g1: "g 1 < 1" using assms(5) by (simp add: unit_draws_def)
  have "2 powr of_int 0 \<le> pt / pc" using assms(2,4) by simp
  then have "fl (pt / pc) = PInf \<or> (\<exists>q. fl (pt / pc) = Fin q \<and> 2 powr of_int 0 \<le> q)"
    by (rule fl_lower) simp
  then have "py_min1 (fl (pt / pc)) = Fin 1"
    by (auto simp: py_min1_def)
  then have r: "py_min1 (np_div (Fin pt) (Fin pc)) = Fin 1"
    using assms(2) by simp
  have pt: "calculate_posterior self (1 + 9 * g 0) = Fin pt"
    using assms(3) by (simp add: uniform_def)
  have acc: "np_le (Fin (g 1)) (py_min1 (np_div (calculate_posterior self (1 + 9 * g 0)) (Fin pc)))"
    unfolding pt r using g1 by simp
  show ?thesis
    unfolding assms(1)
    by (subst mh_trial_unfold, subst if_P [OF acc]) (simp add: r pt uniform_def del: np_div.simps)
qed

theorem better_proposal_accepted_witness:
  "\<exists>pt. calculate_posterior (CalculateE 1 [0]) (11 / 2) = Fin pt \<and> 0 < pt \<and>
        mh_trial (CalculateE 1 [0]) (\<lambda>_. 1 / 2) 2 (Fin pt) = (11 / 2, Fin pt, \<lambda>_. 1 / 2)"
proof -
  let ?s = "CalculateE 1 [0]"
  let ?h = "\<lambda>_::nat. 1 / 2 :: real"
  have u: "unit_draws ?h" by (simp add: unit_draws_def)
  obtain pt where p: "calculate_posterior ?s (11 / 2) = Fin pt" "0 < pt"
    using posterior_single_zero [of ?s "11 / 2"] by (force simp: CalculateE_def)
  have pt: "calculate_posterior ?s (fst (uniform 1 10 ?h)) = Fin pt"
    using p(1) by (simp add: uniform_def)
  have "mh_trial ?s ?h 2 (Fin pt) = (11 / 2, Fin pt, ?h)"
    using better_proposal_accepted [OF refl p(2) pt order_refl u, of 2]
    by (simp add: uniform_def)
  with p show ?thesis by blast
qed

end
